theory Spec2Isabelle
  imports Main
begin

section \<open>The LRU cache of lru.go\<close>

text \<open>
  The cache of \<^verbatim>\<open>lru.go\<close> is a doubly linked list of elements (front = most recently
  used), a Go map from keys to the elements of that list, a capacity \<^verbatim>\<open>MaxEntries\<close> and a
  \<^verbatim>\<open>sync.RWMutex\<close>. Every method except \<^verbatim>\<open>Len\<close>, \<^verbatim>\<open>Clear\<close> and \<^verbatim>\<open>removeElement\<close> takes the
  write lock and releases it by a deferred \<^verbatim>\<open>Unlock\<close>; \<^verbatim>\<open>Get\<close>, \<^verbatim>\<open>Remove\<close> and
  \<^verbatim>\<open>RemoveOldest\<close> return before that when the map is \<^verbatim>\<open>nil\<close>.

  The model is a state-passing embedding of the calls of one goroutine.
  \<^item> An element of the list is named by the map key that indexes it: \<open>dl\<close> is the sequence of
    these names, front first, and \<open>cache\<close> gives the entry (\<^verbatim>\<open>ele.Value.(*entry)\<close>) of
    the element stored under a key. Both fields are pointers in Go and may be \<^verbatim>\<open>nil\<close>:
    \<open>None\<close>. A name in \<open>dl\<close> that has no entry in \<open>cache\<close> stands for an element
    whose \<^verbatim>\<open>Value\<close> is not an \<^verbatim>\<open>*entry\<close>; no operation produces one (\<open>consistent\<close> below).
  \<^item> The field \<^verbatim>\<open>value\<close> of an entry is \<open>val\<close> here. Keys and values are of any type.
  \<^item> \<^verbatim>\<open>time.Now().UnixNano()\<close> is an argument \<open>now\<close> of the operation that reads the clock
    (each reads it at most once). Durations and timestamps are nanoseconds in an
    \<^verbatim>\<open>int64\<close>, here an \<open>int\<close>. \<^verbatim>\<open>time.Now().Add(d)\<close> is the exact time \<open>now + d\<close> (a
    \<^verbatim>\<open>Time\<close> counts seconds and nanoseconds apart), and \<^verbatim>\<open>UnixNano()\<close> multiplies and adds
    in \<^verbatim>\<open>int64\<close>, which wraps: the expiration stored is \<open>int64 (now + d)\<close>, negative once
    \<open>now + d\<close> exceeds \<open>2 ^ 63 - 1\<close>.
  \<^item> \<^verbatim>\<open>OnEvicted *func(key, value)\<close> is a pointer: \<open>None\<close> is \<^verbatim>\<open>nil\<close>, \<open>Some p\<close> the
    address of a function value. What calling that function does to the cache is given by
    an environment of type \<open>callbacks\<close>, an argument of every operation that can reach
    \<^verbatim>\<open>removeElement\<close>.
  \<^item> \<open>lock\<close> tells whether the write lock is held. \<^verbatim>\<open>Lock\<close> on a held
    \<^verbatim>\<open>sync.RWMutex\<close> waits until the lock is released; when the holder is the caller
    itself, which is waiting, nobody releases it and the call does not return: outcome
    \<open>Blocks\<close>.
  \<^item> \<open>fired\<close> is not a field of the Go struct: it records, in order, the calls
    \<^verbatim>\<open>onEvicted(kv.key, kv.value)\<close> that \<^verbatim>\<open>removeElement\<close> has made.
  The watchdog goroutine started by \<^verbatim>\<open>New\<close> only calls \<^verbatim>\<open>DeleteExpired\<close> on a timer and
  is not part of the state.
\<close>

subsection \<open>Data\<close>

record ('k, 'v) entry =
  key :: 'k
  val :: 'v
  Expiration :: int
  OnEvicted :: "nat option"

record ('k, 'v) Cache =
  MaxEntries :: int
  dl :: "'k list option"
  cache :: "('k \<rightharpoonup> ('k, 'v) entry) option"
  lock :: bool
  fired :: "(nat \<times> 'k \<times> 'v) list"

text \<open>
  How a call ends: it returns a result and the state it leaves, or it waits for the lock
  forever, or it panics. The state of a call that does not return is the one the other
  goroutines see from then on.
\<close>

datatype ('r, 's) outcome = Returns 'r 's | Blocks 's | Panics 's

fun state_of :: "('r, 's) outcome \<Rightarrow> 's" where
  "state_of (Returns r s) = s"
| "state_of (Blocks s) = s"
| "state_of (Panics s) = s"

fun and_then :: "('r, 's) outcome \<Rightarrow> ('r \<Rightarrow> 's \<Rightarrow> ('q, 's) outcome) \<Rightarrow> ('q, 's) outcome" where
  "and_then (Returns r s) f = f r s"
| "and_then (Blocks s) f = Blocks s"
| "and_then (Panics s) f = Panics s"

type_synonym ('k, 'v) callbacks =
  "nat \<Rightarrow> 'k \<Rightarrow> 'v \<Rightarrow> ('k, 'v) Cache \<Rightarrow> (unit, ('k, 'v) Cache) outcome"

text \<open>A callback that honours the contract of not touching the cache it is called from.\<close>

definition quiet :: "('k, 'v) callbacks" where
  "quiet p k v c = Returns () c"

subsection \<open>container/list and the Go map, on possibly nil receivers\<close>

text \<open>
  \<^verbatim>\<open>Len\<close>, \<^verbatim>\<open>Back\<close> and \<^verbatim>\<open>PushFront\<close> read a field of the list and panic on a nil
  list; \<^verbatim>\<open>MoveToFront\<close> and \<^verbatim>\<open>Remove\<close> first compare \<^verbatim>\<open>e.list\<close> with the receiver and
  do nothing when the element is not in it. Reading or deleting in a nil map is allowed.
\<close>

definition MoveToFront :: "'k \<Rightarrow> 'k list option \<Rightarrow> 'k list option" where
  "MoveToFront e l = (case l of None \<Rightarrow> None
     | Some ks \<Rightarrow> Some (if e \<in> set ks then e # remove1 e ks else ks))"

definition list_Remove :: "'k \<Rightarrow> 'k list option \<Rightarrow> 'k list option" where
  "list_Remove e l = (case l of None \<Rightarrow> None | Some ks \<Rightarrow> Some (remove1 e ks))"

definition lookup :: "('k, 'v) Cache \<Rightarrow> 'k \<Rightarrow> ('k, 'v) entry option" where
  "lookup c k = (case cache c of None \<Rightarrow> None | Some m \<Rightarrow> m k)"

definition map_delete :: "'k \<Rightarrow> ('k \<rightharpoonup> 'e) option \<Rightarrow> ('k \<rightharpoonup> 'e) option" where
  "map_delete k mo = (case mo of None \<Rightarrow> None | Some m \<Rightarrow> Some (m(k := None)))"

subsection \<open>The lock\<close>

text \<open>\<^verbatim>\<open>c.lock.Lock(); defer c.lock.Unlock(); body\<close>\<close>

definition Lock_defer_Unlock ::
  "(('k, 'v) Cache \<Rightarrow> ('r, ('k, 'v) Cache) outcome) \<Rightarrow> ('k, 'v) Cache \<Rightarrow> ('r, ('k, 'v) Cache) outcome" where
  "Lock_defer_Unlock body c =
     (if lock c then Blocks c
      else (case body (c\<lparr>lock := True\<rparr>) of
              Returns r c' \<Rightarrow> Returns r (c'\<lparr>lock := False\<rparr>)
            | Blocks c' \<Rightarrow> Blocks c'
            | Panics c' \<Rightarrow> Panics (c'\<lparr>lock := False\<rparr>)))"

subsection \<open>The operations\<close>

text \<open>The value an \<^verbatim>\<open>int64\<close> holds after arithmetic whose exact result is \<open>x\<close>.\<close>

definition int64 :: "int \<Rightarrow> int" where
  "int64 x = (x + 2 ^ 63) mod 2 ^ 64 - 2 ^ 63"

definition Expired :: "int \<Rightarrow> ('k, 'v) entry \<Rightarrow> bool" where
  "Expired now e = (if Expiration e = 0 then False else now > Expiration e)"

definition New :: "int \<Rightarrow> ('k, 'v) Cache" where
  "New maxEntries =
     \<lparr>MaxEntries = maxEntries, dl = Some [], cache = Some Map.empty, lock = False, fired = []\<rparr>"

definition Len :: "('k, 'v) Cache \<Rightarrow> (nat, ('k, 'v) Cache) outcome" where
  "Len c = (case cache c of None \<Rightarrow> Returns 0 c
     | Some m \<Rightarrow> (case dl c of None \<Rightarrow> Panics c | Some ks \<Rightarrow> Returns (length ks) c))"

definition Clear :: "('k, 'v) Cache \<Rightarrow> ('k, 'v) Cache" where
  "Clear c = c\<lparr>dl := None, cache := None\<rparr>"

text \<open>
  \<^verbatim>\<open>removeElement(e)\<close>: unlink the element, read its entry (the type assertion panics on
  an element that carries none), delete the entry's key from the map, call the callback.
\<close>

definition removeElement ::
  "('k, 'v) callbacks \<Rightarrow> 'k \<Rightarrow> ('k, 'v) Cache \<Rightarrow> (unit, ('k, 'v) Cache) outcome" where
  "removeElement cbs e c =
     (case lookup c e of
        None \<Rightarrow> Panics (c\<lparr>dl := list_Remove e (dl c)\<rparr>)
      | Some kv \<Rightarrow>
          (let c1 = c\<lparr>dl := list_Remove e (dl c), cache := map_delete (key kv) (cache c)\<rparr>
           in case OnEvicted kv of
                None \<Rightarrow> Returns () c1
              | Some p \<Rightarrow> cbs p (key kv) (val kv) (c1\<lparr>fired := fired c1 @ [(p, key kv, val kv)]\<rparr>)))"

definition RemoveOldest ::
  "('k, 'v) callbacks \<Rightarrow> ('k, 'v) Cache \<Rightarrow> (unit, ('k, 'v) Cache) outcome" where
  "RemoveOldest cbs c =
     (case cache c of None \<Rightarrow> Returns () c
      | Some m \<Rightarrow>
          Lock_defer_Unlock (\<lambda>c.
            case dl c of None \<Rightarrow> Panics c
            | Some ks \<Rightarrow> (if ks = [] then Returns () c else removeElement cbs (last ks) c)) c)"

definition add ::
  "('k, 'v) callbacks \<Rightarrow> 'k \<Rightarrow> 'v \<Rightarrow> int \<Rightarrow> nat option \<Rightarrow> int \<Rightarrow> ('k, 'v) Cache
     \<Rightarrow> (unit, ('k, 'v) Cache) outcome" where
  "add cbs k v d onEvicted now c =
     Lock_defer_Unlock (\<lambda>c.
       let c = (case cache c of None \<Rightarrow> c\<lparr>cache := Some Map.empty, dl := Some []\<rparr> | Some m \<Rightarrow> c);
           e = (if d > 0 then int64 (now + d) else 0)
       in case lookup c k of
            Some item \<Rightarrow>
              Returns () (c\<lparr>dl := MoveToFront k (dl c),
                           cache := map_option (\<lambda>m. m(k \<mapsto> item\<lparr>val := v, Expiration := e\<rparr>)) (cache c)\<rparr>)
          | None \<Rightarrow>
              (case dl c of None \<Rightarrow> Panics c
               | Some ks \<Rightarrow>
                   (let c = c\<lparr>dl := Some (k # ks),
                               cache := map_option (\<lambda>m. m(k \<mapsto>
                                  \<lparr>key = k, val = v, Expiration = e, OnEvicted = onEvicted\<rparr>)) (cache c)\<rparr>
                    in if MaxEntries c \<noteq> 0 \<and> int (length (k # ks)) > MaxEntries c
                       then RemoveOldest cbs c else Returns () c))) c"

definition Add ::
  "('k, 'v) callbacks \<Rightarrow> 'k \<Rightarrow> 'v \<Rightarrow> int \<Rightarrow> ('k, 'v) Cache \<Rightarrow> (unit, ('k, 'v) Cache) outcome" where
  "Add cbs k v now c = add cbs k v (- 1) None now c"

definition AddEx ::
  "('k, 'v) callbacks \<Rightarrow> 'k \<Rightarrow> 'v \<Rightarrow> int \<Rightarrow> int \<Rightarrow> ('k, 'v) Cache \<Rightarrow> (unit, ('k, 'v) Cache) outcome" where
  "AddEx cbs k v d now c = add cbs k v d None now c"

definition AddExWithOnEvicted ::
  "('k, 'v) callbacks \<Rightarrow> 'k \<Rightarrow> 'v \<Rightarrow> int \<Rightarrow> nat option \<Rightarrow> int \<Rightarrow> ('k, 'v) Cache
     \<Rightarrow> (unit, ('k, 'v) Cache) outcome" where
  "AddExWithOnEvicted cbs k v d onEvicted now c = add cbs k v d onEvicted now c"

text \<open>\<^verbatim>\<open>Get\<close> returns \<^verbatim>\<open>(value, ok)\<close>; the zero value of \<^verbatim>\<open>interface{}\<close> is \<open>None\<close>.\<close>

definition Get ::
  "('k, 'v) callbacks \<Rightarrow> int \<Rightarrow> 'k \<Rightarrow> ('k, 'v) Cache \<Rightarrow> ('v option \<times> bool, ('k, 'v) Cache) outcome" where
  "Get cbs now k c =
     (case cache c of None \<Rightarrow> Returns (None, False) c
      | Some m \<Rightarrow>
          Lock_defer_Unlock (\<lambda>c.
            case lookup c k of
              Some v \<Rightarrow>
                (if Expired now v
                 then and_then (removeElement cbs k c) (\<lambda>u c.
                        case lookup c k of
                          Some v' \<Rightarrow> Returns (Some (val v'), True) c
                        | None \<Rightarrow> Returns (None, False) c)
                 else Returns (Some (val v), True) (c\<lparr>dl := MoveToFront k (dl c)\<rparr>))
            | None \<Rightarrow> Returns (None, False) c) c)"

definition Remove ::
  "('k, 'v) callbacks \<Rightarrow> 'k \<Rightarrow> ('k, 'v) Cache \<Rightarrow> (unit, ('k, 'v) Cache) outcome" where
  "Remove cbs k c =
     (case cache c of None \<Rightarrow> Returns () c
      | Some m \<Rightarrow>
          Lock_defer_Unlock (\<lambda>c.
            case lookup c k of Some v \<Rightarrow> removeElement cbs k c | None \<Rightarrow> Returns () c) c)"

text \<open>
  \<^verbatim>\<open>DeleteExpired\<close>. Two inputs stand for what Go leaves open: \<open>r\<close> is the number drawn by
  the random source (\<^verbatim>\<open>rand.Intn(n)\<close> is \<open>r mod n\<close>, and panics when \<open>n \<le> 0\<close>), and
  \<open>order\<close> is the order in which \<^verbatim>\<open>range c.cache\<close> produces the keys; a key that is no
  longer in the map when its turn comes is not produced. The result, which the Go function
  does not have, counts the entries that the loop body has examined.
\<close>

fun sweep ::
  "('k, 'v) callbacks \<Rightarrow> int \<Rightarrow> nat \<Rightarrow> 'k list \<Rightarrow> ('k, 'v) Cache \<Rightarrow> (nat, ('k, 'v) Cache) outcome" where
  "sweep cbs now count [] c = Returns 0 c"
| "sweep cbs now count (k # ks) c =
     (case lookup c k of
        None \<Rightarrow> sweep cbs now count ks c
      | Some kv \<Rightarrow>
          (if count = 0 then Returns 0 c
           else and_then
                  (if Expiration kv > 0 \<and> now > Expiration kv then removeElement cbs k c
                   else Returns () c)
                  (\<lambda>u c. and_then (sweep cbs now (count - 1) ks c) (\<lambda>n c. Returns (Suc n) c))))"

definition DeleteExpired ::
  "('k, 'v) callbacks \<Rightarrow> int \<Rightarrow> nat \<Rightarrow> 'k list \<Rightarrow> ('k, 'v) Cache \<Rightarrow> (nat, ('k, 'v) Cache) outcome" where
  "DeleteExpired cbs now r order c =
     and_then (Len c) (\<lambda>n c.
       if n = 0 then Returns 0 c
       else Lock_defer_Unlock (\<lambda>c.
              and_then (Len c) (\<lambda>n c.
                if n = 0 then Panics c
                else sweep cbs now (r mod n + 1) order c)) c)"

subsection \<open>The states the operations produce\<close>

text \<open>
  List and map are nil together, and otherwise the list names each key of the map once
  and every entry is stored under its own key.
\<close>

definition consistent :: "('k, 'v) Cache \<Rightarrow> bool" where
  "consistent c = (case dl c of
             None \<Rightarrow> (case cache c of None \<Rightarrow> True | Some m \<Rightarrow> False)
           | Some ks \<Rightarrow> (case cache c of None \<Rightarrow> False
               | Some m \<Rightarrow> distinct ks \<and> set ks = dom m \<and> (\<forall>k e. m k = Some e \<longrightarrow> key e = k)))"

text \<open>
  The keys from the most to the least recently used, and the expiration that \<^verbatim>\<open>add\<close>
  computes and stores: \<^verbatim>\<open>time.Now().Add(d).UnixNano()\<close> when \<^verbatim>\<open>d > 0\<close>, else 0.
\<close>

definition recency :: "('k, 'v) Cache \<Rightarrow> 'k list" where
  "recency c = (case dl c of None \<Rightarrow> [] | Some ks \<Rightarrow> ks)"

definition stamp :: "int \<Rightarrow> int \<Rightarrow> int" where
  "stamp now d = (if d > 0 then int64 (now + d) else 0)"

subsection \<open>Properties of outcomes and of state changes\<close>

fun returned :: "('r, 's) outcome \<Rightarrow> bool" where
  "returned (Returns r s) = True"
| "returned (Blocks s) = False"
| "returned (Panics s) = False"

text \<open>
  The call with outcome \<open>r\<close>, made in state \<open>c\<close>, returned, and all it did was to store
  \<open>e'\<close> under the key \<open>k\<close> and to move \<open>k\<close> to the front: the same keys are present, with the
  same entries but for \<open>k\<close>, the size is the same, and no callback was called.
\<close>

definition updated_in_place ::
  "('k, 'v) Cache \<Rightarrow> 'k \<Rightarrow> ('k, 'v) entry \<Rightarrow> (unit, ('k, 'v) Cache) outcome \<Rightarrow> bool" where
  "updated_in_place c k e' r =
     (returned r
      \<and> Len (state_of r) = Returns (length (recency c)) (state_of r)
      \<and> lookup (state_of r) = (lookup c)(k \<mapsto> e')
      \<and> recency (state_of r) = k # remove1 k (recency c)
      \<and> fired (state_of r) = fired c
      \<and> MaxEntries (state_of r) = MaxEntries c)"

text \<open>
  The insert with outcome \<open>r\<close>, made in state \<open>c\<close>, returned and left the key \<open>k\<close> with the
  value \<open>v\<close> and the callback \<open>p\<close>; a \<open>Remove\<close> of the key after it returns, deletes the
  key and calls \<open>p\<close> with the key and the value \<open>v\<close>, once.
\<close>

definition keeps_callback ::
  "('k, 'v) Cache \<Rightarrow> 'k \<Rightarrow> 'v \<Rightarrow> nat \<Rightarrow> (unit, ('k, 'v) Cache) outcome \<Rightarrow> bool" where
  "keeps_callback c k v p r =
     (returned r
      \<and> map_option val (lookup (state_of r) k) = Some v
      \<and> map_option OnEvicted (lookup (state_of r) k) = Some (Some p)
      \<and> returned (Remove quiet k (state_of r))
      \<and> lookup (state_of (Remove quiet k (state_of r))) k = None
      \<and> fired (state_of (Remove quiet k (state_of r))) = fired c @ [(p, k, v)])"

text \<open>The empty cache with the capacity, the lock and the callback log of \<open>c\<close>.\<close>

definition emptied :: "('k, 'v) Cache \<Rightarrow> ('k, 'v) Cache" where
  "emptied c = c\<lparr>dl := Some [], cache := Some Map.empty\<rparr>"

text \<open>
  From \<open>c\<close> to \<open>c'\<close> every key either keeps its entry (or stays absent), or had an entry
  whose expiration is set and lies before \<open>now\<close>, and is gone.
\<close>

definition only_expired_gone :: "int \<Rightarrow> ('k, 'v) Cache \<Rightarrow> ('k, 'v) Cache \<Rightarrow> bool" where
  "only_expired_gone now c c' =
     (\<forall>k. lookup c' k = lookup c k
          \<or> (lookup c' k = None \<and> (\<exists>e. lookup c k = Some e \<and> 0 < Expiration e \<and> Expiration e < now)))"

subsection \<open>Callbacks that touch the cache\<close>

text \<open>
  A callback that puts its key back with the value \<open>w\<close> by writing the list and the map
  themselves, as a function of the package can:
  \<^verbatim>\<open>c.cache[k] = c.dl.PushFront(&entry{k, w, 0, nil})\<close>.
\<close>

definition reinserting :: "'v \<Rightarrow> ('k, 'v) callbacks" where
  "reinserting w p k v c =
     Returns () (c\<lparr>dl := map_option (\<lambda>ks. k # ks) (dl c),
                   cache := map_option (\<lambda>m. m(k \<mapsto> \<lparr>key = k, val = w, Expiration = 0, OnEvicted = None\<rparr>)) (cache c)\<rparr>)"

text \<open>A callback that calls \<^verbatim>\<open>c.Add(k, w)\<close> on the cache that called it.\<close>

definition reloading :: "'v \<Rightarrow> ('k, 'v) callbacks" where
  "reloading w p k v c = Add quiet k w 0 c"

subsection \<open>Example states\<close>

text \<open>A cache of capacity 1 that holds the key \<open>a\<close>: the state after \<^verbatim>\<open>New(1, _); Add("a", 1)\<close>.\<close>

definition full_of_a :: "(string, int) Cache" where
  "full_of_a = \<lparr>MaxEntries = 1, dl = Some [''a''],
      cache = Some [''a'' \<mapsto> \<lparr>key = ''a'', val = 1, Expiration = 0, OnEvicted = None\<rparr>],
      lock = False, fired = []\<rparr>"

text \<open>
  The state after \<^verbatim>\<open>New(2, _); AddExWithOnEvicted("x", 1, 100, &cb)\<close> at time 0, with
  \<open>7\<close> for the address of \<^verbatim>\<open>cb\<close>.
\<close>

definition x_with_ttl :: "(string, int) Cache" where
  "x_with_ttl = \<lparr>MaxEntries = 2, dl = Some [''x''],
      cache = Some [''x'' \<mapsto> \<lparr>key = ''x'', val = 1, Expiration = 100, OnEvicted = Some 7\<rparr>],
      lock = False, fired = []\<rparr>"

text \<open>
  The states of the scenario \<^verbatim>\<open>New(2, _); Add("A", 1); Add("B", 2); Get("A"); Add("C", 3)\<close>:
  the keys in \<open>ks\<close>, in this order in the list, each with the value the scenario gives it.
\<close>

definition plain :: "string \<Rightarrow> int \<Rightarrow> (string, int) entry" where
  "plain k v = \<lparr>key = k, val = v, Expiration = 0, OnEvicted = None\<rparr>"

definition lru_state :: "string list \<Rightarrow> bool \<Rightarrow> (string, int) Cache" where
  "lru_state ks held = \<lparr>MaxEntries = 2, dl = Some ks,
      cache = Some ([''A'' \<mapsto> plain ''A'' 1, ''B'' \<mapsto> plain ''B'' 2, ''C'' \<mapsto> plain ''C'' 3] |` set ks),
      lock = held, fired = []\<rparr>"

text \<open>The state after \<^verbatim>\<open>New(2, _); Add("x", 1)\<close>: the key has no callback.\<close>

definition x_without_callback :: "(string, int) Cache" where
  "x_without_callback = \<lparr>MaxEntries = 2, dl = Some [''x''],
      cache = Some [''x'' \<mapsto> \<lparr>key = ''x'', val = 1, Expiration = 0, OnEvicted = None\<rparr>],
      lock = False, fired = []\<rparr>"

text \<open>
  The state after \<^verbatim>\<open>New(2, _); AddExWithOnEvicted("x", 1, 100, &cb); Add("y", 2)\<close> at time 0.
\<close>

definition x_and_y :: "(string, int) Cache" where
  "x_and_y = \<lparr>MaxEntries = 2, dl = Some [''y'', ''x''],
      cache = Some [''x'' \<mapsto> \<lparr>key = ''x'', val = 1, Expiration = 100, OnEvicted = Some 7\<rparr>,
                    ''y'' \<mapsto> \<lparr>key = ''y'', val = 2, Expiration = 0, OnEvicted = None\<rparr>],
      lock = False, fired = []\<rparr>"

section \<open>Basic facts\<close>

lemma unlock_idle: "\<not> lock c \<Longrightarrow> c\<lparr>lock := False\<rparr> = c"
  by simp

lemma consistent_lock_update: "consistent (c\<lparr>lock := b\<rparr>) = consistent c"
  by (simp add: consistent_def split: option.splits)

lemma consistent_fired_update: "consistent (c\<lparr>fired := f\<rparr>) = consistent c"
  by (simp add: consistent_def split: option.splits)

lemma lookup_other_updates [simp]:
  "lookup (c\<lparr>lock := b\<rparr>) = lookup c"
  "lookup (c\<lparr>fired := f\<rparr>) = lookup c"
  "lookup (c\<lparr>dl := l\<rparr>) = lookup c"
  by (rule ext, simp add: lookup_def)+

lemma lookup_map_delete [simp]:
  "lookup (c\<lparr>cache := map_delete k (cache c')\<rparr>) = (lookup c')(k := None)"
  by (rule ext) (simp add: lookup_def map_delete_def split: option.splits)

lemma lookup_deleted [simp]: "lookup (c\<lparr>cache := map_delete k mo\<rparr>) k = None"
  by (simp add: lookup_def map_delete_def split: option.splits)

lemma recency_other_updates [simp]:
  "recency (c\<lparr>lock := b\<rparr>) = recency c"
  "recency (c\<lparr>fired := f\<rparr>) = recency c"
  "recency (c\<lparr>cache := m\<rparr>) = recency c"
  by (simp_all add: recency_def)

lemma recency_list_Remove [simp]:
  "recency (c\<lparr>dl := list_Remove k (dl c')\<rparr>) = remove1 k (recency c')"
  by (simp add: recency_def list_Remove_def split: option.splits)

lemma recency_MoveToFront:
  "k \<in> set (recency c') \<Longrightarrow> recency (c\<lparr>dl := MoveToFront k (dl c')\<rparr>) = k # remove1 k (recency c')"
  by (cases "dl c'") (simp_all add: recency_def MoveToFront_def)

lemma lookup_fun: "lookup c = (case cache c of None \<Rightarrow> Map.empty | Some m \<Rightarrow> m)"
  by (rule ext) (simp add: lookup_def split: option.splits)

lemma consistent_New: "consistent (New n)"
  by (simp add: consistent_def New_def)

lemma consistent_lookup_key: "consistent c \<Longrightarrow> lookup c k = Some e \<Longrightarrow> key e = k"
  by (auto simp: consistent_def lookup_def split: option.splits)

lemma consistent_lookup_dl:
  "consistent c \<Longrightarrow> lookup c k = Some e \<Longrightarrow> \<exists>ks. dl c = Some ks \<and> k \<in> set ks \<and> distinct ks"
  by (auto simp: consistent_def lookup_def split: option.splits)

lemma consistent_dl_lookup: "consistent c \<Longrightarrow> dl c = Some ks \<Longrightarrow> k \<in> set ks \<Longrightarrow> \<exists>e. lookup c k = Some e"
  by (auto simp: consistent_def lookup_def split: option.splits)

lemma consistent_Len: "consistent c \<Longrightarrow> Len c = Returns (length (recency c)) c"
  by (simp add: consistent_def Len_def recency_def split: option.splits)

subsection \<open>The expiration that \<open>add\<close> stores\<close>

text \<open>
  The stored expiration is an \<^verbatim>\<open>int64\<close>. It is the exact sum as long as the sum fits, and
  the sum less \<open>2 ^ 64\<close>, a negative number, when a time to live carries it over
  \<open>2 ^ 63 - 1\<close>, as \<^verbatim>\<open>time.Duration(math.MaxInt64)\<close> does.
\<close>

lemma int64_range: "- (2 ^ 63) \<le> int64 x \<and> int64 x < 2 ^ 63"
proof -
  have "0 \<le> (x + 2 ^ 63) mod 2 ^ 64" "(x + 2 ^ 63) mod 2 ^ 64 < (2 ^ 64 :: int)"
    by simp_all
  then show ?thesis unfolding int64_def by simp
qed

lemma int64_exact: "- (2 ^ 63) \<le> x \<Longrightarrow> x < 2 ^ 63 \<Longrightarrow> int64 x = x"
  unfolding int64_def by (simp add: mod_pos_pos_trivial)

lemma int64_wraps:
  assumes "2 ^ 63 \<le> x" "x < 2 ^ 64"
  shows "int64 x = x - 2 ^ 64"
proof -
  have "(x + 2 ^ 63) mod 2 ^ 64 = x + 2 ^ 63 - 2 ^ 64"
    using assms by (intro int_mod_pos_eq [where q = 1]) simp_all
  then show ?thesis unfolding int64_def by simp
qed

lemma stamp_exact:
  "0 < d \<Longrightarrow> - (2 ^ 63) \<le> now + d \<Longrightarrow> now + d < 2 ^ 63 \<Longrightarrow> stamp now d = now + d"
  by (simp add: stamp_def int64_exact)

lemma stamp_wraps:
  "0 < d \<Longrightarrow> 2 ^ 63 \<le> now + d \<Longrightarrow> now + d < 2 ^ 64 \<Longrightarrow>
   stamp now d = now + d - 2 ^ 64 \<and> stamp now d < 0"
  by (simp add: stamp_def int64_wraps)

text \<open>
  \<^verbatim>\<open>AddExWithOnEvicted("k", 1, time.Duration(math.MaxInt64), &cb)\<close> at the time
  1793432565555514485: the expiration stored is negative, and a \<open>Get\<close> one nanosecond
  later finds the entry expired, removes it and calls the callback.
\<close>

lemma int64_of_forever: "int64 11016804602410290292 = - 7429939471299261324"
  by (simp add: int64_def)

lemma stamp_of_forever: "stamp 1793432565555514485 9223372036854775807 = - 7429939471299261324"
  by (simp add: stamp_def int64_of_forever)

lemma ttl_of_MaxInt64_expires_at_once:
  "and_then (AddExWithOnEvicted quiet ''k'' (1::int) 9223372036854775807 (Some 7) 1793432565555514485 (New 2))
     (\<lambda>u c. and_then (Get quiet 1793432565555514486 ''k'' c) (\<lambda>r c. Returns (r, fired c, recency c) c))
   = Returns ((None, False), [(7, ''k'', 1)], [])
       \<lparr>MaxEntries = 2, dl = Some [], cache = Some Map.empty, lock = False, fired = [(7, ''k'', 1)]\<rparr>"
  by (simp add: AddExWithOnEvicted_def add_def New_def Lock_defer_Unlock_def lookup_def
      Get_def Expired_def removeElement_def quiet_def list_Remove_def map_delete_def
      recency_def int64_of_forever)

subsection \<open>What \<open>add\<close> does\<close>

lemma add_existing:
  "\<not> lock c \<Longrightarrow> lookup c k = Some item \<Longrightarrow>
   add cbs k v d cb now c =
     Returns () (c\<lparr>dl := MoveToFront k (dl c),
                   cache := map_option (\<lambda>m. m(k \<mapsto> item\<lparr>val := v, Expiration := stamp now d\<rparr>)) (cache c)\<rparr>)"
  by (auto simp: add_def Lock_defer_Unlock_def lookup_def stamp_def Let_def split: option.splits)

text \<open>
  A fresh key is linked and indexed first. Then, over capacity, \<open>add\<close> calls
  \<open>RemoveOldest\<close> while it holds the lock that \<open>RemoveOldest\<close> starts by taking.
\<close>

lemma add_fresh:
  assumes "consistent c" "\<not> lock c" "lookup c k = None"
  shows "add cbs k v d cb now c =
     (if MaxEntries c \<noteq> 0 \<and> MaxEntries c < int (length (recency c)) + 1
      then Blocks (c\<lparr>dl := Some (k # recency c),
                     cache := Some ((lookup c)(k \<mapsto>
                        \<lparr>key = k, val = v, Expiration = stamp now d, OnEvicted = cb\<rparr>)),
                     lock := True\<rparr>)
      else Returns () (c\<lparr>dl := Some (k # recency c),
                     cache := Some ((lookup c)(k \<mapsto>
                        \<lparr>key = k, val = v, Expiration = stamp now d, OnEvicted = cb\<rparr>))\<rparr>))"
proof (cases "cache c")
  case None
  with assms have "dl c = None" by (simp add: consistent_def split: option.splits)
  with None assms(2) show ?thesis
    by (simp add: add_def Lock_defer_Unlock_def lookup_fun lookup_def stamp_def Let_def
        recency_def RemoveOldest_def)
next
  case (Some m)
  with assms obtain ks where "dl c = Some ks" by (auto simp: consistent_def split: option.splits)
  with Some assms(2,3) show ?thesis
    by (simp add: add_def Lock_defer_Unlock_def lookup_fun lookup_def stamp_def Let_def
        recency_def RemoveOldest_def)
qed

subsection \<open>What \<open>removeElement\<close> and \<open>Get\<close> do\<close>

lemma consistent_removed:
  "consistent c \<Longrightarrow> consistent (c\<lparr>dl := list_Remove k (dl c), cache := map_delete k (cache c)\<rparr>)"
  by (auto simp: consistent_def list_Remove_def map_delete_def split: option.splits if_splits)

lemma removeElement_quiet:
  "consistent c \<Longrightarrow> lookup c k = Some kv \<Longrightarrow>
   removeElement quiet k c =
     Returns () (c\<lparr>dl := list_Remove k (dl c), cache := map_delete k (cache c),
                   fired := fired c @ (case OnEvicted kv of None \<Rightarrow> [] | Some p \<Rightarrow> [(p, k, val kv)])\<rparr>)"
  by (frule (1) consistent_lookup_key) (simp add: removeElement_def quiet_def Let_def split: option.splits)

lemma lookup_SomeD: "lookup c k = Some v \<Longrightarrow> \<exists>m. cache c = Some m \<and> m k = Some v"
  by (cases "cache c") (simp_all add: lookup_def)

lemma Get_absent:
  assumes "lookup c k = None" "\<not> lock c"
  shows "Get cbs now k c = Returns (None, False) c"
proof (cases "cache c")
  case None
  then show ?thesis by (simp add: Get_def)
next
  case (Some m)
  with assms show ?thesis by (simp add: Get_def Lock_defer_Unlock_def)
qed

lemma Get_fresh:
  assumes "lookup c k = Some v" "\<not> Expired now v" "\<not> lock c"
  shows "Get cbs now k c = Returns (Some (val v), True) (c\<lparr>dl := MoveToFront k (dl c)\<rparr>)"
proof -
  from assms(1) obtain m where "cache c = Some m" "m k = Some v"
    by (blast dest: lookup_SomeD)
  with assms show ?thesis by (simp add: Get_def Lock_defer_Unlock_def)
qed

lemma Get_expired:
  assumes "lookup c k = Some v" "Expired now v" "\<not> lock c"
  shows "Get cbs now k c =
     (case removeElement cbs k (c\<lparr>lock := True\<rparr>) of
        Returns u c' \<Rightarrow> (case lookup c' k of
                           Some v' \<Rightarrow> Returns (Some (val v'), True) (c'\<lparr>lock := False\<rparr>)
                         | None \<Rightarrow> Returns (None, False) (c'\<lparr>lock := False\<rparr>))
      | Blocks c' \<Rightarrow> Blocks c'
      | Panics c' \<Rightarrow> Panics (c'\<lparr>lock := False\<rparr>))"
proof -
  from assms(1) obtain m where m: "cache c = Some m" "m k = Some v"
    by (blast dest: lookup_SomeD)
  show ?thesis
  proof (cases "removeElement cbs k (c\<lparr>lock := True\<rparr>)")
    case (Returns u c')
    with m assms show ?thesis
      by (cases "lookup c' k") (simp_all add: Get_def Lock_defer_Unlock_def)
  next
    case (Blocks c')
    with m assms show ?thesis by (simp add: Get_def Lock_defer_Unlock_def)
  next
    case (Panics c')
    with m assms show ?thesis by (simp add: Get_def Lock_defer_Unlock_def)
  qed
qed

subsection \<open>An insert of a key that is present\<close>

lemma lookup_map_upd [simp]:
  "lookup c k = Some item \<Longrightarrow>
   lookup (c'\<lparr>cache := map_option (\<lambda>m. m(k \<mapsto> e')) (cache c)\<rparr>) = (lookup c)(k \<mapsto> e')"
  by (rule ext) (auto simp: lookup_def split: option.splits)

lemma consistent_add_existing:
  assumes "consistent c" "lookup c k = Some item" "key e' = k"
  shows "consistent (c\<lparr>dl := MoveToFront k (dl c), cache := map_option (\<lambda>m. m(k \<mapsto> e')) (cache c)\<rparr>)"
proof -
  from assms obtain m where m: "cache c = Some m" "m k = Some item" by (blast dest: lookup_SomeD)
  from assms obtain ks where ks: "dl c = Some ks" "k \<in> set ks" "distinct ks" by (blast dest: consistent_lookup_dl)
  from assms(1) m ks have "set ks = dom m" "\<forall>k e. m k = Some e \<longrightarrow> key e = k"
    by (simp_all add: consistent_def)
  with m ks assms(3) show ?thesis
    by (auto simp: consistent_def MoveToFront_def)
qed

lemma add_existing_in_place:
  assumes "consistent c" "\<not> lock c" "lookup c k = Some e"
  shows "updated_in_place c k (e\<lparr>val := v, Expiration := stamp now d\<rparr>) (add cbs k v d cb now c)"
proof -
  let ?c' = "c\<lparr>dl := MoveToFront k (dl c),
       cache := map_option (\<lambda>m. m(k \<mapsto> e\<lparr>val := v, Expiration := stamp now d\<rparr>)) (cache c)\<rparr>"
  have r: "add cbs k v d cb now c = Returns () ?c'"
    using assms by (simp add: add_existing)
  from assms have "key e = k" by (blast dest: consistent_lookup_key)
  with assms have "consistent ?c'" by (intro consistent_add_existing) simp_all
  then have len: "Len ?c' = Returns (length (recency ?c')) ?c'" by (rule consistent_Len)
  from assms have mem: "k \<in> set (recency c)" by (auto dest: consistent_lookup_dl simp: recency_def)
  then have rec: "recency ?c' = k # remove1 k (recency c)"
    by (simp add: recency_MoveToFront)
  from mem have "length (k # remove1 k (recency c)) = length (recency c)"
    using length_pos_if_in_set [OF mem] by (simp add: length_remove1)
  with r len rec assms show ?thesis
    unfolding updated_in_place_def by simp
qed

lemma Remove_quiet:
  assumes "consistent c" "\<not> lock c" "lookup c k = Some e"
  shows "Remove quiet k c =
     Returns () (c\<lparr>dl := list_Remove k (dl c), cache := map_delete k (cache c),
                   fired := fired c @ (case OnEvicted e of None \<Rightarrow> [] | Some p \<Rightarrow> [(p, k, val e)])\<rparr>)"
proof -
  from assms(3) obtain m where m: "cache c = Some m" "m k = Some e" by (blast dest: lookup_SomeD)
  have "consistent (c\<lparr>lock := True\<rparr>)" "lookup (c\<lparr>lock := True\<rparr>) k = Some e"
    using assms by (simp_all add: consistent_lock_update)
  from removeElement_quiet [OF this] m assms show ?thesis
    by (simp add: Remove_def Lock_defer_Unlock_def)
qed

lemma add_existing_keeps_callback:
  assumes "consistent c" "\<not> lock c" "lookup c k = Some e" "OnEvicted e = Some p"
  shows "keeps_callback c k v p (add cbs k v d None now c)"
proof -
  let ?e' = "e\<lparr>val := v, Expiration := stamp now d\<rparr>"
  let ?c' = "c\<lparr>dl := MoveToFront k (dl c), cache := map_option (\<lambda>m. m(k \<mapsto> ?e')) (cache c)\<rparr>"
  have r: "add cbs k v d None now c = Returns () ?c'"
    using assms by (simp add: add_existing)
  from assms have "key e = k" by (blast dest: consistent_lookup_key)
  with assms have ok': "consistent ?c'" by (intro consistent_add_existing) simp_all
  have l': "lookup ?c' k = Some ?e'" using assms by simp
  have "\<not> lock ?c'" using assms by simp
  from Remove_quiet [OF ok' this l'] r l' assms(4) show ?thesis
    unfolding keeps_callback_def by simp
qed

subsection \<open>Callbacks that touch the cache, and \<open>Clear\<close>\<close>

text \<open>
  Through the exported operations a callback cannot put its key back: \<^verbatim>\<open>c.Add\<close> waits
  for the lock that \<open>Get\<close> holds while it calls the callback, and \<open>Get\<close> never returns.
\<close>

lemma Get_reloading_blocks:
  assumes "consistent c" "\<not> lock c" "lookup c k = Some v" "Expired now v" "OnEvicted v = Some p"
  shows "Get (reloading w) now k c =
           Blocks (c\<lparr>lock := True, dl := list_Remove k (dl c), cache := map_delete k (cache c),
                     fired := fired c @ [(p, k, val v)]\<rparr>)"
proof -
  from assms have "key v = k" by (blast dest: consistent_lookup_key)
  with assms have "removeElement (reloading w) k (c\<lparr>lock := True\<rparr>) =
      Blocks (c\<lparr>lock := True, dl := list_Remove k (dl c), cache := map_delete k (cache c),
                fired := fired c @ [(p, k, val v)]\<rparr>)"
    by (simp add: removeElement_def reloading_def Add_def add_def Lock_defer_Unlock_def)
  with assms show ?thesis by (simp add: Get_expired)
qed

lemma consistent_emptied: "consistent (emptied c)"
  by (simp add: consistent_def emptied_def)

lemma add_Clear:
  "\<not> lock c \<Longrightarrow> add cbs k v d cb now (Clear c) = add cbs k v d cb now (emptied c)"
  by (simp add: add_def Clear_def emptied_def Lock_defer_Unlock_def Let_def lookup_def)

subsection \<open>The loop of \<open>DeleteExpired\<close>\<close>

lemma only_expired_gone_refl: "only_expired_gone now c c"
  by (simp add: only_expired_gone_def)

lemma only_expired_gone_trans:
  "only_expired_gone now c c1 \<Longrightarrow> only_expired_gone now c1 c2 \<Longrightarrow> only_expired_gone now c c2"
  unfolding only_expired_gone_def by (metis option.distinct(1))

lemma only_expired_gone_removed:
  "lookup c k = Some e \<Longrightarrow> 0 < Expiration e \<Longrightarrow> Expiration e < now \<Longrightarrow> lookup c' = (lookup c)(k := None)
   \<Longrightarrow> only_expired_gone now c c'"
  by (simp add: only_expired_gone_def)

lemma sweep_quiet:
  "consistent c \<Longrightarrow>
   \<exists>n c'. sweep quiet now count order c = Returns n c' \<and> n \<le> count \<and> consistent c'
        \<and> lock c' = lock c \<and> only_expired_gone now c c'"
proof (induction order arbitrary: c count)
  case Nil
  then show ?case by (simp add: only_expired_gone_refl)
next
  case (Cons k ks)
  show ?case
  proof (cases "lookup c k")
    case None
    with Cons.IH [OF Cons.prems, of count] show ?thesis by simp
  next
    case (Some kv)
    show ?thesis
    proof (cases "count = 0")
      case True
      with Some Cons.prems show ?thesis by (simp add: only_expired_gone_refl)
    next
      case False
      show ?thesis
      proof (cases "0 < Expiration kv \<and> Expiration kv < now")
        case expired: True
        let ?c1 = "c\<lparr>dl := list_Remove k (dl c), cache := map_delete k (cache c),
           fired := fired c @ (case OnEvicted kv of None \<Rightarrow> [] | Some p \<Rightarrow> [(p, k, val kv)])\<rparr>"
        have gone: "removeElement quiet k c = Returns () ?c1"
          using Cons.prems Some by (rule removeElement_quiet)
        have ok1: "consistent ?c1" using Cons.prems by (simp add: consistent_fired_update consistent_removed)
        from Cons.IH [OF ok1, of "count - 1"] obtain n c'
          where rest: "sweep quiet now (count - 1) ks ?c1 = Returns n c'" "n \<le> count - 1" "consistent c'"
            "lock c' = lock ?c1" "only_expired_gone now ?c1 c'"
          by blast
        have "only_expired_gone now c ?c1"
          using Some expired by (intro only_expired_gone_removed [where k = k and e = kv]) simp_all
        from this rest(5) have "only_expired_gone now c c'" by (rule only_expired_gone_trans)
        with Some False expired gone rest show ?thesis by simp
      next
        case kept: False
        from Cons.IH [OF Cons.prems, of "count - 1"] obtain n c'
          where rest: "sweep quiet now (count - 1) ks c = Returns n c'" "n \<le> count - 1" "consistent c'"
            "lock c' = lock c" "only_expired_gone now c c'"
          by blast
        with Some False kept show ?thesis by auto
      qed
    qed
  qed
qed

subsection \<open>The operations keep the list and the map consistent\<close>

text \<open>
  \<open>New\<close> gives a consistent state (\<open>consistent_New\<close>), and the operations lead from consistent
  states to consistent states, also when they do not return.
\<close>

lemma recency_dl_Some [simp]: "recency (c\<lparr>dl := Some ks\<rparr>) = ks"
  by (simp add: recency_def)

lemma consistent_Clear: "consistent (Clear c)"
  by (simp add: consistent_def Clear_def)

lemma consistent_add_fresh:
  assumes "consistent c" "lookup c k = None" "key e = k"
  shows "consistent (c\<lparr>dl := Some (k # recency c), cache := Some ((lookup c)(k \<mapsto> e))\<rparr>)"
proof (cases "cache c")
  case None
  with assms(1) have "dl c = None" by (simp add: consistent_def split: option.splits)
  with None assms(3) show ?thesis by (simp add: consistent_def recency_def lookup_fun)
next
  case (Some m)
  with assms(1) obtain ks where ks: "dl c = Some ks" by (cases "dl c") (simp_all add: consistent_def)
  from assms(1) Some ks have inv: "distinct ks" "set ks = dom m" "\<forall>k e. m k = Some e \<longrightarrow> key e = k"
    by (simp_all add: consistent_def)
  from assms(2) Some have "m k = None" by (simp add: lookup_def)
  with inv have "k \<notin> set ks" by (simp add: domIff)
  with inv assms(3) Some ks show ?thesis
    by (simp add: consistent_def recency_def lookup_fun)
qed

lemma consistent_add:
  assumes "consistent c" "\<not> lock c"
  shows "consistent (state_of (add cbs k v d cb now c))"
proof (cases "lookup c k")
  case None
  have "consistent (c\<lparr>dl := Some (k # recency c),
      cache := Some ((lookup c)(k \<mapsto> \<lparr>key = k, val = v, Expiration = stamp now d, OnEvicted = cb\<rparr>))\<rparr>)"
    using assms(1) None by (rule consistent_add_fresh) simp
  with assms None show ?thesis by (simp add: add_fresh consistent_lock_update)
next
  case (Some e)
  from assms Some have "key e = k" by (blast dest: consistent_lookup_key)
  with assms Some show ?thesis by (simp add: add_existing consistent_add_existing)
qed

lemma consistent_MoveToFront:
  assumes "consistent c"
  shows "consistent (c\<lparr>dl := MoveToFront k (dl c)\<rparr>)"
proof (cases "dl c")
  case None
  with assms show ?thesis by (simp add: consistent_def MoveToFront_def split: option.splits)
next
  case (Some ks)
  with assms obtain m where m: "cache c = Some m" by (cases "cache c") (simp_all add: consistent_def)
  from assms Some m have inv: "distinct ks" "set ks = dom m" "\<forall>k e. m k = Some e \<longrightarrow> key e = k"
    by (simp_all add: consistent_def)
  have "set (if k \<in> set ks then k # remove1 k ks else ks) = set ks"
    using inv(1) by auto
  moreover have "distinct (if k \<in> set ks then k # remove1 k ks else ks)"
    using inv(1) by simp
  ultimately show ?thesis using Some m inv by (simp add: consistent_def MoveToFront_def)
qed

lemma consistent_Get_quiet:
  assumes "consistent c" "\<not> lock c"
  shows "consistent (state_of (Get quiet now k c))"
proof (cases "lookup c k")
  case None
  with assms show ?thesis by (simp add: Get_absent)
next
  case (Some v)
  show ?thesis
  proof (cases "Expired now v")
    case True
    have "consistent (c\<lparr>lock := True\<rparr>)" "lookup (c\<lparr>lock := True\<rparr>) k = Some v"
      using assms Some by (simp_all add: consistent_lock_update)
    from removeElement_quiet [OF this] Some True assms show ?thesis
      by (simp add: Get_expired consistent_lock_update consistent_fired_update consistent_removed)
  next
    case False
    with Some assms show ?thesis by (simp add: Get_fresh consistent_MoveToFront)
  qed
qed

lemma consistent_Remove_quiet:
  assumes "consistent c" "\<not> lock c"
  shows "consistent (state_of (Remove quiet k c))"
proof (cases "lookup c k")
  case None
  with assms show ?thesis
    by (cases "cache c") (simp_all add: Remove_def Lock_defer_Unlock_def consistent_lock_update)
next
  case (Some e)
  with assms show ?thesis by (simp add: Remove_quiet consistent_fired_update consistent_removed)
qed

lemma RemoveOldest_quiet:
  assumes "consistent c" "\<not> lock c" "recency c \<noteq> []"
  shows "\<exists>e. lookup c (last (recency c)) = Some e
       \<and> RemoveOldest quiet c =
           Returns () (c\<lparr>dl := list_Remove (last (recency c)) (dl c),
                         cache := map_delete (last (recency c)) (cache c),
                         fired := fired c @ (case OnEvicted e of None \<Rightarrow> []
                                             | Some p \<Rightarrow> [(p, last (recency c), val e)])\<rparr>)"
proof -
  from assms(3) obtain ks where ks: "dl c = Some ks" "ks \<noteq> []" "recency c = ks"
    by (cases "dl c") (simp_all add: recency_def)
  with assms(1) obtain m where m: "cache c = Some m" by (cases "cache c") (simp_all add: consistent_def)
  from ks have "last ks \<in> set ks" by simp
  with assms(1) ks obtain e where e: "lookup c (last ks) = Some e" by (blast dest: consistent_dl_lookup)
  have "consistent (c\<lparr>lock := True\<rparr>)" "lookup (c\<lparr>lock := True\<rparr>) (last ks) = Some e"
    using assms e by (simp_all add: consistent_lock_update)
  from removeElement_quiet [OF this] ks(1,2) m e assms(2) show ?thesis
    unfolding ks(3) by (simp add: RemoveOldest_def Lock_defer_Unlock_def)
qed

text \<open>
  What is left of the capacity bound: an insert that returns leaves the cache within its
  capacity. (An insert that does not return leaves it one entry over, see C1.)
\<close>

lemma add_returned_within_capacity:
  assumes "consistent c" "\<not> lock c" "0 < MaxEntries c" "int (length (recency c)) \<le> MaxEntries c"
    and "add cbs k v d cb now c = Returns () c'"
  shows "int (length (recency c')) \<le> MaxEntries c'"
proof (cases "lookup c k")
  case None
  with assms show ?thesis by (auto simp: add_fresh split: if_splits)
next
  case (Some e)
  from consistent_add [OF assms(1,2), of cbs k v d cb now] assms(5) have "consistent c'" by simp
  then have now_len: "Len c' = Returns (length (recency c')) c'" by (rule consistent_Len)
  from add_existing_in_place [OF assms(1,2) Some, where v = v and now = now and d = d
      and cbs = cbs and cb = cb] assms(5)
  have same: "Len c' = Returns (length (recency c)) c'" "MaxEntries c' = MaxEntries c"
    by (simp_all add: updated_in_place_def)
  from now_len same(1) have "length (recency c') = length (recency c)" by simp
  with same(2) assms(4) show ?thesis by simp
qed

subsection \<open>The test of the repository\<close>

text \<open>
  \<^verbatim>\<open>TestLru\<close>: a cache of capacity 2, the key \<open>hello\<close> with a time to live of one second and
  a callback, the key \<open>world\<close> without, and two reads five seconds later. The first read
  finds the entry expired, removes it, calls the callback and reports nothing found; the
  second finds \<open>world\<close>. The capacity is not exceeded, so no insert reaches \<^verbatim>\<open>RemoveOldest\<close>.
\<close>

lemma TestLru:
  "and_then (AddExWithOnEvicted quiet ''hello'' ''world'' 1000000000 (Some 0) 0 (New 2)) (\<lambda>u c.
   and_then (Add quiet ''world'' ''hello'' 0 c) (\<lambda>u c.
   and_then (Get quiet 5000000000 ''hello'' c) (\<lambda>hello c.
   and_then (Get quiet 5000000000 ''world'' c) (\<lambda>world c.
     Returns (hello, world, fired c, recency c) c))))
   = Returns ((None, False), (Some ''hello'', True), [(0, ''hello'', ''world'')], [''world''])
       \<lparr>MaxEntries = 2, dl = Some [''world''],
        cache = Some [''world'' \<mapsto> \<lparr>key = ''world'', val = ''hello'', Expiration = 0, OnEvicted = None\<rparr>],
        lock = False, fired = [(0, ''hello'', ''world'')]\<rparr>"
  by (simp add: AddExWithOnEvicted_def Add_def add_def New_def Lock_defer_Unlock_def lookup_def
      Get_def Expired_def removeElement_def quiet_def list_Remove_def map_delete_def MoveToFront_def
      recency_def fun_eq_iff int64_def)

section \<open>The claims\<close>

text \<open>
  C1. The source does not keep the capacity bound: an insert of a fresh key into a cache
  that holds \<open>N = MaxEntries > 0\<close> entries links the new element, and then its call of
  \<^verbatim>\<open>RemoveOldest\<close> waits for the lock that \<open>add\<close> itself holds. The insert never returns,
  the cache is left with \<open>N + 1\<close> entries, no entry is removed and no callback is called.
\<close>

theorem add_at_capacity_blocks:
  assumes "consistent c" and "\<not> lock c" and "lookup c k = None"
    and "0 < MaxEntries c" and "int (length (recency c)) = MaxEntries c"
  shows "\<exists>s. add cbs k v d cb now c = Blocks s
           \<and> Len s = Returns (length (recency c) + 1) s
           \<and> MaxEntries s = MaxEntries c
           \<and> recency s = k # recency c
           \<and> fired s = fired c"
  using assms by (simp add: add_fresh Len_def recency_def)

theorem add_at_capacity_blocks_witness:
  "Add quiet ''a'' 1 0 (New 1) = Returns () full_of_a
   \<and> (\<exists>s. Add quiet ''b'' 2 0 full_of_a = Blocks s
          \<and> Len s = Returns 2 s \<and> MaxEntries s = 1 \<and> recency s = [''b'', ''a''] \<and> fired s = [])"
proof -
  have reached: "Add quiet ''a'' 1 0 (New 1) = Returns () full_of_a"
    by (simp add: Add_def add_def New_def Lock_defer_Unlock_def lookup_def full_of_a_def)
  have hyps: "consistent full_of_a" "\<not> lock full_of_a" "lookup full_of_a ''b'' = None"
    "0 < MaxEntries full_of_a" "int (length (recency full_of_a)) = MaxEntries full_of_a"
    by (auto simp: consistent_def full_of_a_def lookup_def recency_def)
  have shape: "recency full_of_a = [''a'']" "MaxEntries full_of_a = 1" "fired full_of_a = []"
    by (simp_all add: full_of_a_def recency_def)
  from add_at_capacity_blocks [OF hyps, of quiet 2 "- 1" None 0] reached shape
  show ?thesis by (simp add: Add_def numeral_2_eq_2)
qed

text \<open>
  C2. \<open>Get\<close>, called while no operation is in progress. An absent key gives
  \<open>(None, False)\<close> and changes nothing. A present key whose entry has expired is unlinked
  and deleted, its callback (if it has one) is called once, with the key and the value, and
  the result is \<open>(None, False)\<close>; this for a callback that leaves the cache alone
  (\<open>quiet\<close>, the contract the specification puts on callbacks; C8 is about the others).
  A present key that has not expired moves to the front of the list, nothing else
  changes, no callback is called, and the result is its value and \<open>True\<close>.
\<close>

theorem Get_cases:
  assumes "consistent c" and "\<not> lock c"
  shows "case lookup c k of
           None \<Rightarrow> Get cbs now k c = Returns (None, False) c
         | Some v \<Rightarrow>
             if Expired now v
             then \<exists>c'. Get quiet now k c = Returns (None, False) c'
                      \<and> lookup c' = (lookup c)(k := None)
                      \<and> recency c' = remove1 k (recency c)
                      \<and> fired c' = fired c @ (case OnEvicted v of None \<Rightarrow> [] | Some p \<Rightarrow> [(p, k, val v)])
             else \<exists>c'. Get cbs now k c = Returns (Some (val v), True) c'
                      \<and> lookup c' = lookup c
                      \<and> recency c' = k # remove1 k (recency c)
                      \<and> fired c' = fired c"
proof (cases "lookup c k")
  case None
  then show ?thesis using assms by (simp add: Get_absent)
next
  case (Some v)
  show ?thesis
  proof (cases "Expired now v")
    case True
    have "consistent (c\<lparr>lock := True\<rparr>)" "lookup (c\<lparr>lock := True\<rparr>) k = Some v"
      using assms Some by (simp_all add: consistent_lock_update)
    note gone = removeElement_quiet [OF this]
    have "Get quiet now k c = Returns (None, False)
            (c\<lparr>dl := list_Remove k (dl c), cache := map_delete k (cache c),
               fired := fired c @ (case OnEvicted v of None \<Rightarrow> [] | Some p \<Rightarrow> [(p, k, val v)])\<rparr>)"
      using Some True assms gone
      by (simp add: Get_expired)
    then show ?thesis using Some True by simp
  next
    case False
    from assms Some have "k \<in> set (recency c)"
      by (auto dest: consistent_lookup_dl simp: recency_def)
    with False Some assms show ?thesis
      by (simp add: Get_fresh recency_MoveToFront)
  qed
qed

theorem Get_cases_witness:
  "Get quiet 150 ''y'' x_with_ttl = Returns (None, False) x_with_ttl
   \<and> (\<exists>c'. Get quiet 50 ''x'' x_with_ttl = Returns (Some 1, True) c'
          \<and> lookup c' = lookup x_with_ttl \<and> recency c' = [''x''] \<and> fired c' = [])
   \<and> (\<exists>c'. Get quiet 150 ''x'' x_with_ttl = Returns (None, False) c'
          \<and> lookup c' = Map.empty \<and> recency c' = [] \<and> fired c' = [(7, ''x'', 1)])"
proof -
  have hyps: "consistent x_with_ttl" "\<not> lock x_with_ttl"
    by (auto simp: consistent_def x_with_ttl_def)
  have shape: "lookup x_with_ttl ''y'' = None"
    "lookup x_with_ttl ''x'' = Some \<lparr>key = ''x'', val = 1, Expiration = 100, OnEvicted = Some 7\<rparr>"
    "recency x_with_ttl = [''x'']" "fired x_with_ttl = []"
    "(lookup x_with_ttl)(''x'' := None) = Map.empty"
    by (auto simp: x_with_ttl_def lookup_def recency_def fun_eq_iff)
  from Get_cases [OF hyps, where k = "''y''" and now = 150 and cbs = quiet]
    Get_cases [OF hyps, where k = "''x''" and now = 50 and cbs = quiet]
    Get_cases [OF hyps, where k = "''x''" and now = 150 and cbs = quiet] shape
  show ?thesis by (simp add: Expired_def)
qed

text \<open>
  C3. The scenario of the specification, on the source. The first three calls do what the
  claim says, and \<open>Get\<close> moves \<open>A\<close> to the front. The insert of \<open>C\<close> is the third entry of a
  cache of capacity 2: it links \<open>C\<close> and then waits for its own lock in \<^verbatim>\<open>RemoveOldest\<close>.
  It never returns, and \<open>B\<close> is still in the cache, which now holds three entries.
\<close>

theorem lru_scenario_blocks:
  "Add cbs ''A'' 1 t1 (New 2) = Returns () (lru_state [''A''] False)
   \<and> Add cbs ''B'' 2 t2 (lru_state [''A''] False) = Returns () (lru_state [''B'', ''A''] False)
   \<and> Get cbs t3 ''A'' (lru_state [''B'', ''A''] False)
       = Returns (Some 1, True) (lru_state [''A'', ''B''] False)
   \<and> Add cbs ''C'' 3 t4 (lru_state [''A'', ''B''] False) = Blocks (lru_state [''C'', ''A'', ''B''] True)
   \<and> lookup (lru_state [''C'', ''A'', ''B''] True) ''B'' = Some (plain ''B'' 2)
   \<and> Len (lru_state [''C'', ''A'', ''B''] True) = Returns 3 (lru_state [''C'', ''A'', ''B''] True)"
  by (simp add: Add_def add_def New_def Lock_defer_Unlock_def lookup_def lru_state_def plain_def
      Get_def Expired_def MoveToFront_def RemoveOldest_def Len_def fun_eq_iff restrict_map_def)

text \<open>
  C10. The guard of \<open>add\<close> is \<^verbatim>\<open>c.MaxEntries != 0 && c.dl.Len() > c.MaxEntries\<close>, so with a
  negative capacity the first insert already calls \<^verbatim>\<open>RemoveOldest\<close>. That call waits for
  the lock held by \<open>add\<close>: the insert never returns, the entry stays in the cache, which
  holds one entry, and no callback is called.
\<close>

theorem negative_capacity_insert_blocks:
  assumes "n < 0"
  shows "\<exists>s. add cbs k v d cb now (New n) = Blocks s
           \<and> Len s = Returns 1 s
           \<and> lookup s k = Some \<lparr>key = k, val = v, Expiration = stamp now d, OnEvicted = cb\<rparr>
           \<and> fired s = []"
  using assms
  by (simp add: add_def New_def Lock_defer_Unlock_def lookup_def RemoveOldest_def stamp_def Len_def)

theorem negative_capacity_insert_blocks_witness:
  "\<exists>s. AddExWithOnEvicted quiet ''a'' (1::int) 5 (Some 7) 100 (New (- 1)) = Blocks s
       \<and> Len s = Returns 1 s
       \<and> lookup s ''a'' = Some \<lparr>key = ''a'', val = 1, Expiration = 105, OnEvicted = Some 7\<rparr>
       \<and> fired s = []"
  using negative_capacity_insert_blocks [of "- 1" quiet "''a''" "1::int" 5 "Some 7" 100]
  by (simp add: AddExWithOnEvicted_def stamp_def int64_def)

text \<open>
  C9. An insert of a key that is present, by any of the three insert operations, called
  while no operation is in progress: the call returns (also when the cache is at
  capacity, since \<open>add\<close> returns before its capacity test), the size is unchanged, no key
  leaves the cache, no callback is called, the other entries are untouched, and the entry
  of the key has the new value and expiration and is at the front. The expiration is
  the \<^verbatim>\<open>int64\<close> that the source stores, \<open>stamp now d\<close>, for every time to live \<open>d\<close>.
\<close>

theorem insert_existing_key_frame:
  assumes "consistent c" and "\<not> lock c" and "lookup c k = Some e"
  shows "updated_in_place c k (e\<lparr>val := v, Expiration := 0\<rparr>) (Add cbs k v now c)
       \<and> updated_in_place c k (e\<lparr>val := v, Expiration := stamp now d\<rparr>) (AddEx cbs k v d now c)
       \<and> updated_in_place c k (e\<lparr>val := v, Expiration := stamp now d\<rparr>)
            (AddExWithOnEvicted cbs k v d cb now c)"
  using add_existing_in_place [OF assms, where d = "- 1"] add_existing_in_place [OF assms, where d = d]
  by (simp add: Add_def AddEx_def AddExWithOnEvicted_def stamp_def)

theorem insert_existing_key_frame_witness:
  "Len x_and_y = Returns 2 x_and_y \<and> MaxEntries x_and_y = 2 \<and> recency x_and_y = [''y'', ''x'']
   \<and> updated_in_place x_and_y ''x'' \<lparr>key = ''x'', val = 5, Expiration = 0, OnEvicted = Some 7\<rparr>
        (Add quiet ''x'' 5 10 x_and_y)
   \<and> updated_in_place x_and_y ''x'' \<lparr>key = ''x'', val = 5, Expiration = 30, OnEvicted = Some 7\<rparr>
        (AddEx quiet ''x'' 5 20 10 x_and_y)
   \<and> updated_in_place x_and_y ''x'' \<lparr>key = ''x'', val = 5, Expiration = 30, OnEvicted = Some 7\<rparr>
        (AddExWithOnEvicted quiet ''x'' 5 20 (Some 3) 10 x_and_y)
   \<and> recency (state_of (AddEx quiet ''x'' 5 20 10 x_and_y)) = [''x'', ''y'']
   \<and> lookup (state_of (AddEx quiet ''x'' 5 20 10 x_and_y)) ''y''
       = Some \<lparr>key = ''y'', val = 2, Expiration = 0, OnEvicted = None\<rparr>
   \<and> lookup (state_of (AddEx quiet ''x'' 5 20 10 x_and_y)) ''x''
       = Some \<lparr>key = ''x'', val = 5, Expiration = 30, OnEvicted = Some 7\<rparr>
   \<and> Len (state_of (AddEx quiet ''x'' 5 20 10 x_and_y))
       = Returns 2 (state_of (AddEx quiet ''x'' 5 20 10 x_and_y))
   \<and> fired (state_of (AddEx quiet ''x'' 5 20 10 x_and_y)) = []
   \<and> updated_in_place x_and_y ''x''
        \<lparr>key = ''x'', val = 6, Expiration = - 7429939471299261324, OnEvicted = Some 7\<rparr>
        (AddEx quiet ''x'' 6 9223372036854775807 1793432565555514485 x_and_y)"
proof -
  have hyps: "consistent x_and_y" "\<not> lock x_and_y"
    "lookup x_and_y ''x'' = Some \<lparr>key = ''x'', val = 1, Expiration = 100, OnEvicted = Some 7\<rparr>"
    by (auto simp: consistent_def x_and_y_def lookup_def)
  have shape: "Len x_and_y = Returns 2 x_and_y" "MaxEntries x_and_y = 2"
    "recency x_and_y = [''y'', ''x'']" "fired x_and_y = []"
    "lookup x_and_y ''y'' = Some \<lparr>key = ''y'', val = 2, Expiration = 0, OnEvicted = None\<rparr>"
    by (simp_all add: x_and_y_def Len_def recency_def lookup_def)
  have stamps: "stamp 10 20 = 30" by (simp add: stamp_def int64_def)
  from insert_existing_key_frame [OF hyps, where v = 5 and cbs = quiet and now = 10 and d = 20
      and cb = "Some 3"]
  have frame: "updated_in_place x_and_y ''x'' \<lparr>key = ''x'', val = 5, Expiration = 0, OnEvicted = Some 7\<rparr>
        (Add quiet ''x'' 5 10 x_and_y)"
    "updated_in_place x_and_y ''x'' \<lparr>key = ''x'', val = 5, Expiration = 30, OnEvicted = Some 7\<rparr>
        (AddEx quiet ''x'' 5 20 10 x_and_y)"
    "updated_in_place x_and_y ''x'' \<lparr>key = ''x'', val = 5, Expiration = 30, OnEvicted = Some 7\<rparr>
        (AddExWithOnEvicted quiet ''x'' 5 20 (Some 3) 10 x_and_y)"
    by (simp_all add: stamps)
  from frame(2) shape
  have seen: "recency (state_of (AddEx quiet ''x'' 5 20 10 x_and_y)) = [''x'', ''y'']"
    "lookup (state_of (AddEx quiet ''x'' 5 20 10 x_and_y)) ''y''
       = Some \<lparr>key = ''y'', val = 2, Expiration = 0, OnEvicted = None\<rparr>"
    "lookup (state_of (AddEx quiet ''x'' 5 20 10 x_and_y)) ''x''
       = Some \<lparr>key = ''x'', val = 5, Expiration = 30, OnEvicted = Some 7\<rparr>"
    "Len (state_of (AddEx quiet ''x'' 5 20 10 x_and_y))
       = Returns 2 (state_of (AddEx quiet ''x'' 5 20 10 x_and_y))"
    "fired (state_of (AddEx quiet ''x'' 5 20 10 x_and_y)) = []"
    by (simp_all add: updated_in_place_def)
  from insert_existing_key_frame [OF hyps, where v = 6 and cbs = quiet
      and now = 1793432565555514485 and d = 9223372036854775807 and cb = None]
  have forever: "updated_in_place x_and_y ''x''
        \<lparr>key = ''x'', val = 6, Expiration = - 7429939471299261324, OnEvicted = Some 7\<rparr>
        (AddEx quiet ''x'' 6 9223372036854775807 1793432565555514485 x_and_y)"
    by (simp add: stamp_of_forever)
  from frame seen forever shape show ?thesis by simp
qed

text \<open>
  C5. A key that has a callback \<open>p\<close> and is given a new value by \<open>Add\<close> or \<open>AddEx\<close>,
  which pass no callback: the insert returns, the entry has the new value and the new
  expiration (0 for \<open>Add\<close>, the \<^verbatim>\<open>int64\<close> \<open>stamp now d\<close> for \<open>AddEx\<close>) and is at the
  front, it still has the callback \<open>p\<close>, and a later \<open>Remove\<close> of the key calls \<open>p\<close> with
  the key and the new value.
\<close>

theorem callback_survives_plain_insert:
  assumes "consistent c" and "\<not> lock c" and "lookup c k = Some e" and "OnEvicted e = Some p"
  shows "updated_in_place c k (e\<lparr>val := v, Expiration := 0\<rparr>) (Add cbs k v now c)
       \<and> keeps_callback c k v p (Add cbs k v now c)
       \<and> updated_in_place c k (e\<lparr>val := v, Expiration := stamp now d\<rparr>) (AddEx cbs k v d now c)
       \<and> keeps_callback c k v p (AddEx cbs k v d now c)"
  using add_existing_keeps_callback [OF assms]
    add_existing_in_place [OF assms(1-3), where d = "- 1" and cb = None]
    add_existing_in_place [OF assms(1-3), where d = d and cb = None]
  by (simp add: Add_def AddEx_def stamp_def)

theorem callback_survives_plain_insert_witness:
  "keeps_callback x_with_ttl ''x'' 2 7 (Add quiet ''x'' 2 10 x_with_ttl)
   \<and> keeps_callback x_with_ttl ''x'' 2 7 (AddEx quiet ''x'' 2 500 10 x_with_ttl)
   \<and> lookup (state_of (Add quiet ''x'' 2 10 x_with_ttl)) ''x''
       = Some \<lparr>key = ''x'', val = 2, Expiration = 0, OnEvicted = Some 7\<rparr>
   \<and> lookup (state_of (AddEx quiet ''x'' 2 500 10 x_with_ttl)) ''x''
       = Some \<lparr>key = ''x'', val = 2, Expiration = 510, OnEvicted = Some 7\<rparr>
   \<and> fired (state_of (Remove quiet ''x'' (state_of (Add quiet ''x'' 2 10 x_with_ttl)))) = [(7, ''x'', 2)]
   \<and> keeps_callback x_with_ttl ''x'' 2 7
        (AddEx quiet ''x'' 2 9223372036854775807 1793432565555514485 x_with_ttl)
   \<and> lookup (state_of (AddEx quiet ''x'' 2 9223372036854775807 1793432565555514485 x_with_ttl)) ''x''
       = Some \<lparr>key = ''x'', val = 2, Expiration = - 7429939471299261324, OnEvicted = Some 7\<rparr>"
proof -
  have hyps: "consistent x_with_ttl" "\<not> lock x_with_ttl"
    "lookup x_with_ttl ''x'' = Some \<lparr>key = ''x'', val = 1, Expiration = 100, OnEvicted = Some 7\<rparr>"
    "OnEvicted \<lparr>key = ''x'', val = 1::int, Expiration = 100, OnEvicted = Some 7\<rparr> = Some 7"
    by (auto simp: consistent_def x_with_ttl_def lookup_def)
  have log: "fired x_with_ttl = []" by (simp add: x_with_ttl_def)
  have stamps: "stamp 10 500 = 510" by (simp add: stamp_def int64_def)
  from callback_survives_plain_insert [OF hyps, where v = 2 and cbs = quiet and now = 10 and d = 500] log
  have small: "keeps_callback x_with_ttl ''x'' 2 7 (Add quiet ''x'' 2 10 x_with_ttl)"
    "keeps_callback x_with_ttl ''x'' 2 7 (AddEx quiet ''x'' 2 500 10 x_with_ttl)"
    "lookup (state_of (Add quiet ''x'' 2 10 x_with_ttl)) ''x''
       = Some \<lparr>key = ''x'', val = 2, Expiration = 0, OnEvicted = Some 7\<rparr>"
    "lookup (state_of (AddEx quiet ''x'' 2 500 10 x_with_ttl)) ''x''
       = Some \<lparr>key = ''x'', val = 2, Expiration = 510, OnEvicted = Some 7\<rparr>"
    "fired (state_of (Remove quiet ''x'' (state_of (Add quiet ''x'' 2 10 x_with_ttl)))) = [(7, ''x'', 2)]"
    by (simp_all add: keeps_callback_def updated_in_place_def stamps)
  from callback_survives_plain_insert [OF hyps, where v = 2 and cbs = quiet
      and now = 1793432565555514485 and d = 9223372036854775807]
  have forever: "keeps_callback x_with_ttl ''x'' 2 7
        (AddEx quiet ''x'' 2 9223372036854775807 1793432565555514485 x_with_ttl)"
    "lookup (state_of (AddEx quiet ''x'' 2 9223372036854775807 1793432565555514485 x_with_ttl)) ''x''
       = Some \<lparr>key = ''x'', val = 2, Expiration = - 7429939471299261324, OnEvicted = Some 7\<rparr>"
    by (simp_all add: updated_in_place_def stamp_of_forever)
  from small forever show ?thesis by simp
qed

text \<open>
  C6. \<open>AddExWithOnEvicted\<close> on a key that is present returns and stores the new value and
  expiration (the \<^verbatim>\<open>int64\<close> \<open>stamp now d\<close>), and the entry keeps the callback it had
  (none, if it had none): the argument \<open>cb\<close> is dropped. On a key that is absent the entry created carries \<open>cb\<close>; this is the
  state the call leaves, whether it returns or, over capacity, waits in \<^verbatim>\<open>RemoveOldest\<close>.
\<close>

theorem callback_attached_only_at_creation:
  assumes "consistent c" and "\<not> lock c"
  shows "case lookup c k of
           Some e \<Rightarrow>
             returned (AddExWithOnEvicted cbs k v d cb now c)
             \<and> lookup (state_of (AddExWithOnEvicted cbs k v d cb now c)) k =
                 Some \<lparr>key = key e, val = v, Expiration = stamp now d, OnEvicted = OnEvicted e\<rparr>
         | None \<Rightarrow>
             lookup (state_of (AddExWithOnEvicted cbs k v d cb now c)) k =
                 Some \<lparr>key = k, val = v, Expiration = stamp now d, OnEvicted = cb\<rparr>"
proof (cases "lookup c k")
  case None
  with assms show ?thesis by (simp add: AddExWithOnEvicted_def add_fresh lookup_def)
next
  case (Some e)
  with assms show ?thesis by (simp add: AddExWithOnEvicted_def add_existing)
qed

theorem callback_attached_only_at_creation_witness:
  "lookup (state_of (AddExWithOnEvicted quiet ''x'' 2 50 (Some 9) 10 x_with_ttl)) ''x''
     = Some \<lparr>key = ''x'', val = 2, Expiration = 60, OnEvicted = Some 7\<rparr>
   \<and> lookup (state_of (AddExWithOnEvicted quiet ''x'' 2 50 (Some 9) 10 x_without_callback)) ''x''
     = Some \<lparr>key = ''x'', val = 2, Expiration = 60, OnEvicted = None\<rparr>
   \<and> lookup (state_of (AddExWithOnEvicted quiet ''y'' 2 50 (Some 9) 10 x_with_ttl)) ''y''
     = Some \<lparr>key = ''y'', val = 2, Expiration = 60, OnEvicted = Some 9\<rparr>
   \<and> lookup (state_of (AddExWithOnEvicted quiet ''y'' 2 9223372036854775807 (Some 9)
         1793432565555514485 x_with_ttl)) ''y''
     = Some \<lparr>key = ''y'', val = 2, Expiration = - 7429939471299261324, OnEvicted = Some 9\<rparr>
   \<and> lookup (state_of (AddExWithOnEvicted quiet ''x'' 2 9223372036854775807 (Some 9)
         1793432565555514485 x_with_ttl)) ''x''
     = Some \<lparr>key = ''x'', val = 2, Expiration = - 7429939471299261324, OnEvicted = Some 7\<rparr>"
proof -
  have hyps: "consistent x_with_ttl" "\<not> lock x_with_ttl" "consistent x_without_callback" "\<not> lock x_without_callback"
    by (auto simp: consistent_def x_with_ttl_def x_without_callback_def)
  have shape: "lookup x_with_ttl ''y'' = None"
    "lookup x_with_ttl ''x'' = Some \<lparr>key = ''x'', val = 1, Expiration = 100, OnEvicted = Some 7\<rparr>"
    "lookup x_without_callback ''x'' = Some \<lparr>key = ''x'', val = 1, Expiration = 0, OnEvicted = None\<rparr>"
    by (auto simp: x_with_ttl_def x_without_callback_def lookup_def)
  have stamps: "stamp 10 50 = 60" by (simp add: stamp_def int64_def)
  from callback_attached_only_at_creation [OF hyps(1,2), where k = "''x''" and v = 2 and d = 50
      and cb = "Some 9" and now = 10 and cbs = quiet]
    callback_attached_only_at_creation [OF hyps(3,4), where k = "''x''" and v = 2 and d = 50
      and cb = "Some 9" and now = 10 and cbs = quiet]
    callback_attached_only_at_creation [OF hyps(1,2), where k = "''y''" and v = 2 and d = 50
      and cb = "Some 9" and now = 10 and cbs = quiet]
    callback_attached_only_at_creation [OF hyps(1,2), where k = "''y''" and v = 2
      and d = 9223372036854775807 and cb = "Some 9" and now = 1793432565555514485 and cbs = quiet]
    callback_attached_only_at_creation [OF hyps(1,2), where k = "''x''" and v = 2
      and d = 9223372036854775807 and cb = "Some 9" and now = 1793432565555514485 and cbs = quiet]
    shape
  show ?thesis by (simp add: stamps stamp_of_forever)
qed

text \<open>
  C8. \<open>Get\<close> on a key whose entry has expired, with any callbacks. When \<open>removeElement\<close>,
  which calls the callback, has returned and left the state \<open>c'\<close>, \<open>Get\<close> looks the key up
  again in \<open>c'\<close>: if the callback has put the key back, \<open>Get\<close> returns the value now stored
  and \<open>True\<close>, and otherwise \<open>(None, False)\<close>.
\<close>

theorem Get_second_lookup:
  assumes "\<not> lock c" and "lookup c k = Some v" and "Expired now v"
    and "removeElement cbs k (c\<lparr>lock := True\<rparr>) = Returns () c'"
  shows "Get cbs now k c =
           Returns (case lookup c' k of Some v' \<Rightarrow> (Some (val v'), True) | None \<Rightarrow> (None, False))
                   (c'\<lparr>lock := False\<rparr>)"
  using assms by (cases "lookup c' k") (simp_all add: Get_expired)

theorem Get_second_lookup_witness:
  "(\<exists>c'. removeElement (reinserting 9) ''x'' (x_with_ttl\<lparr>lock := True\<rparr>) = Returns () c'
         \<and> lookup c' ''x'' = Some \<lparr>key = ''x'', val = 9, Expiration = 0, OnEvicted = None\<rparr>
         \<and> fired c' = [(7, ''x'', 1)]
         \<and> Get (reinserting 9) 150 ''x'' x_with_ttl = Returns (Some 9, True) (c'\<lparr>lock := False\<rparr>))
   \<and> (\<exists>c'. removeElement quiet ''x'' (x_with_ttl\<lparr>lock := True\<rparr>) = Returns () c'
         \<and> lookup c' ''x'' = None
         \<and> fired c' = [(7, ''x'', 1)]
         \<and> Get quiet 150 ''x'' x_with_ttl = Returns (None, False) (c'\<lparr>lock := False\<rparr>))"
proof -
  have hyps: "\<not> lock x_with_ttl"
    "lookup x_with_ttl ''x'' = Some \<lparr>key = ''x'', val = 1, Expiration = 100, OnEvicted = Some 7\<rparr>"
    "Expired 150 \<lparr>key = ''x'', val = 1::int, Expiration = 100, OnEvicted = Some 7\<rparr>"
    by (auto simp: x_with_ttl_def lookup_def Expired_def)
  let ?again = "x_with_ttl\<lparr>lock := True, dl := Some [''x''],
      cache := Some [''x'' \<mapsto> \<lparr>key = ''x'', val = 9, Expiration = 0, OnEvicted = None\<rparr>],
      fired := [(7, ''x'', 1)]\<rparr>"
  let ?gone = "x_with_ttl\<lparr>lock := True, dl := Some [], cache := Some Map.empty,
      fired := [(7, ''x'', 1)]\<rparr>"
  have again: "removeElement (reinserting 9) ''x'' (x_with_ttl\<lparr>lock := True\<rparr>) = Returns () ?again"
    by (simp add: removeElement_def reinserting_def x_with_ttl_def lookup_def list_Remove_def map_delete_def)
  have gone: "removeElement quiet ''x'' (x_with_ttl\<lparr>lock := True\<rparr>) = Returns () ?gone"
    by (simp add: removeElement_def quiet_def x_with_ttl_def lookup_def list_Remove_def map_delete_def)
  from Get_second_lookup [OF hyps again] Get_second_lookup [OF hyps gone] again gone
  show ?thesis by (simp add: lookup_def)
qed

text \<open>
  C7. \<open>Clear\<close> calls no callback. After it, while no operation is in progress, \<open>Len\<close> is 0,
  \<open>Get\<close> of every key gives \<open>(None, False)\<close>, \<open>Remove\<close>, \<open>RemoveOldest\<close> and
  \<open>DeleteExpired\<close> return and change nothing, as they do on the empty cache, and no call
  panics. An insert makes the list and the map anew and does what it does on the empty
  cache: it returns with the key as the only entry (with the expiration \<open>stamp now d\<close>
  that the source stores), unless the capacity is negative (C10).
\<close>

theorem Clear_then_empty:
  assumes "\<not> lock c"
  shows "fired (Clear c) = fired c
       \<and> Len (Clear c) = Returns 0 (Clear c)
       \<and> Get cbs now k (Clear c) = Returns (None, False) (Clear c)
       \<and> Remove cbs k (Clear c) = Returns () (Clear c)
       \<and> RemoveOldest cbs (Clear c) = Returns () (Clear c)
       \<and> DeleteExpired cbs now r order (Clear c) = Returns 0 (Clear c)
       \<and> Len (emptied c) = Returns 0 (emptied c)
       \<and> Get cbs now k (emptied c) = Returns (None, False) (emptied c)
       \<and> Remove cbs k (emptied c) = Returns () (emptied c)
       \<and> RemoveOldest cbs (emptied c) = Returns () (emptied c)
       \<and> DeleteExpired cbs now r order (emptied c) = Returns 0 (emptied c)
       \<and> add cbs k v d cb now (emptied c) = add cbs k v d cb now (Clear c)
       \<and> add cbs k v d cb now (Clear c) =
            (if MaxEntries c < 0
             then Blocks (c\<lparr>dl := Some [k],
                    cache := Some [k \<mapsto> \<lparr>key = k, val = v, Expiration = stamp now d, OnEvicted = cb\<rparr>],
                    lock := True\<rparr>)
             else Returns () (c\<lparr>dl := Some [k],
                    cache := Some [k \<mapsto> \<lparr>key = k, val = v, Expiration = stamp now d, OnEvicted = cb\<rparr>]\<rparr>))"
proof -
  have cleared: "fired (Clear c) = fired c" "Len (Clear c) = Returns 0 (Clear c)"
    "Get cbs now k (Clear c) = Returns (None, False) (Clear c)"
    "Remove cbs k (Clear c) = Returns () (Clear c)"
    "RemoveOldest cbs (Clear c) = Returns () (Clear c)"
    "DeleteExpired cbs now r order (Clear c) = Returns 0 (Clear c)"
    by (simp_all add: Clear_def Len_def Get_def Remove_def RemoveOldest_def DeleteExpired_def)
  have empty: "Len (emptied c) = Returns 0 (emptied c)"
    "Get cbs now k (emptied c) = Returns (None, False) (emptied c)"
    "Remove cbs k (emptied c) = Returns () (emptied c)"
    "RemoveOldest cbs (emptied c) = Returns () (emptied c)"
    "DeleteExpired cbs now r order (emptied c) = Returns 0 (emptied c)"
    using assms
    by (simp_all add: emptied_def Len_def Get_def Remove_def RemoveOldest_def DeleteExpired_def
        Lock_defer_Unlock_def lookup_def)
  have "\<not> lock (emptied c)" "lookup (emptied c) k = None"
    using assms by (simp_all add: emptied_def lookup_def)
  from add_fresh [OF consistent_emptied this, of cbs v d cb now]
  have "add cbs k v d cb now (emptied c) =
            (if MaxEntries c < 0
             then Blocks (c\<lparr>dl := Some [k],
                    cache := Some [k \<mapsto> \<lparr>key = k, val = v, Expiration = stamp now d, OnEvicted = cb\<rparr>],
                    lock := True\<rparr>)
             else Returns () (c\<lparr>dl := Some [k],
                    cache := Some [k \<mapsto> \<lparr>key = k, val = v, Expiration = stamp now d, OnEvicted = cb\<rparr>]\<rparr>))"
    by (auto simp: emptied_def recency_def lookup_fun)
  with cleared empty assms show ?thesis by (simp add: add_Clear)
qed

theorem Clear_then_empty_witness:
  "fired (Clear x_with_ttl) = []
   \<and> Len (Clear x_with_ttl) = Returns 0 (Clear x_with_ttl)
   \<and> Get quiet 50 ''x'' (Clear x_with_ttl) = Returns (None, False) (Clear x_with_ttl)
   \<and> Remove quiet ''x'' (Clear x_with_ttl) = Returns () (Clear x_with_ttl)
   \<and> RemoveOldest quiet (Clear x_with_ttl) = Returns () (Clear x_with_ttl)
   \<and> DeleteExpired quiet 150 0 [''x''] (Clear x_with_ttl) = Returns 0 (Clear x_with_ttl)
   \<and> Add quiet ''y'' 2 50 (Clear x_with_ttl) =
        Returns () \<lparr>MaxEntries = 2, dl = Some [''y''],
          cache = Some [''y'' \<mapsto> \<lparr>key = ''y'', val = 2, Expiration = 0, OnEvicted = None\<rparr>],
          lock = False, fired = []\<rparr>
   \<and> AddExWithOnEvicted quiet ''y'' 2 9223372036854775807 (Some 9) 1793432565555514485
          (Clear x_with_ttl) =
        Returns () \<lparr>MaxEntries = 2, dl = Some [''y''],
          cache = Some [''y'' \<mapsto> \<lparr>key = ''y'', val = 2, Expiration = - 7429939471299261324,
                                     OnEvicted = Some 9\<rparr>],
          lock = False, fired = []\<rparr>"
proof -
  have hyp: "\<not> lock x_with_ttl" by (simp add: x_with_ttl_def)
  have shape: "fired x_with_ttl = []" "\<not> MaxEntries x_with_ttl < 0"
    "\<And>e. x_with_ttl\<lparr>dl := Some [''y''], cache := Some [''y'' \<mapsto> e]\<rparr>
     = \<lparr>MaxEntries = 2, dl = Some [''y''], cache = Some [''y'' \<mapsto> e], lock = False, fired = []\<rparr>"
    by (simp_all add: x_with_ttl_def)
  from Clear_then_empty [OF hyp, where cbs = quiet and now = 50 and k = "''x''"]
  have reads: "fired (Clear x_with_ttl) = fired x_with_ttl"
    "Len (Clear x_with_ttl) = Returns 0 (Clear x_with_ttl)"
    "Get quiet 50 ''x'' (Clear x_with_ttl) = Returns (None, False) (Clear x_with_ttl)"
    "Remove quiet ''x'' (Clear x_with_ttl) = Returns () (Clear x_with_ttl)"
    "RemoveOldest quiet (Clear x_with_ttl) = Returns () (Clear x_with_ttl)"
    by simp_all
  from Clear_then_empty [OF hyp, where cbs = quiet and now = 150 and r = 0 and order = "[''x'']"]
  have sweeps: "DeleteExpired quiet 150 0 [''x''] (Clear x_with_ttl) = Returns 0 (Clear x_with_ttl)"
    by simp
  from Clear_then_empty [OF hyp, where cbs = quiet and now = 50 and k = "''y''" and v = 2
      and d = "- 1" and cb = None and r = 0 and order = "[]"] shape
  have inserts: "Add quiet ''y'' 2 50 (Clear x_with_ttl) =
        Returns () \<lparr>MaxEntries = 2, dl = Some [''y''],
          cache = Some [''y'' \<mapsto> \<lparr>key = ''y'', val = 2, Expiration = 0, OnEvicted = None\<rparr>],
          lock = False, fired = []\<rparr>"
    by (simp add: Add_def stamp_def)
  from Clear_then_empty [OF hyp, where cbs = quiet and now = 1793432565555514485 and k = "''y''"
      and v = 2 and d = 9223372036854775807 and cb = "Some 9" and r = 0 and order = "[]"] shape
  have forever: "AddExWithOnEvicted quiet ''y'' 2 9223372036854775807 (Some 9) 1793432565555514485
          (Clear x_with_ttl) =
        Returns () \<lparr>MaxEntries = 2, dl = Some [''y''],
          cache = Some [''y'' \<mapsto> \<lparr>key = ''y'', val = 2, Expiration = - 7429939471299261324,
                                     OnEvicted = Some 9\<rparr>],
          lock = False, fired = []\<rparr>"
    by (simp add: AddExWithOnEvicted_def stamp_of_forever)
  from reads sweeps inserts forever shape(1) show ?thesis by simp
qed

text \<open>
  C4. \<open>DeleteExpired\<close> on a cache whose callbacks leave the cache alone, called while no
  operation is in progress, for every number \<open>r\<close> drawn and every order of iteration: the
  call returns, the number of entries it has examined is at most the size \<open>Len\<close> reports
  before the call, and every key keeps its entry unless the entry's expiration is greater
  than 0 and less than \<open>now\<close>; only such entries are removed.
\<close>

theorem DeleteExpired_bounded:
  assumes "consistent c" and "\<not> lock c"
  shows "\<exists>n c'. DeleteExpired quiet now r order c = Returns n c'
           \<and> Len c = Returns (length (recency c)) c
           \<and> n \<le> length (recency c)
           \<and> only_expired_gone now c c'
           \<and> consistent c'"
proof (cases "length (recency c) = 0")
  case True
  with assms show ?thesis
    by (simp add: DeleteExpired_def consistent_Len only_expired_gone_refl)
next
  case False
  let ?n = "length (recency c)"
  have okl: "consistent (c\<lparr>lock := True\<rparr>)" using assms by (simp add: consistent_lock_update)
  from sweep_quiet [OF okl, of now "r mod ?n + 1" order] obtain n c'
    where sw: "sweep quiet now (r mod ?n + 1) order (c\<lparr>lock := True\<rparr>) = Returns n c'"
      "n \<le> r mod ?n + 1" "consistent c'" "only_expired_gone now (c\<lparr>lock := True\<rparr>) c'"
    by blast
  from False have "r mod ?n < ?n" by simp
  with sw(2) have bound: "n \<le> ?n" by simp
  have res: "DeleteExpired quiet now r order c = Returns n (c'\<lparr>lock := False\<rparr>)"
    using assms False sw(1) consistent_Len [OF okl] by (simp add: DeleteExpired_def consistent_Len Lock_defer_Unlock_def)
  from sw(4) have "only_expired_gone now c (c'\<lparr>lock := False\<rparr>)"
    by (simp add: only_expired_gone_def)
  with res bound sw(3) assms show ?thesis by (simp add: consistent_Len consistent_lock_update)
qed

theorem DeleteExpired_bounded_witness:
  "(\<exists>n c'. DeleteExpired quiet 150 1 [''x'', ''y''] x_and_y = Returns n c'
           \<and> Len x_and_y = Returns (length (recency x_and_y)) x_and_y
           \<and> n \<le> length (recency x_and_y)
           \<and> only_expired_gone 150 x_and_y c'
           \<and> consistent c')
   \<and> DeleteExpired quiet 150 1 [''x'', ''y''] x_and_y =
        Returns 2 \<lparr>MaxEntries = 2, dl = Some [''y''],
          cache = Some [''y'' \<mapsto> \<lparr>key = ''y'', val = 2, Expiration = 0, OnEvicted = None\<rparr>],
          lock = False, fired = [(7, ''x'', 1)]\<rparr>
   \<and> Len x_and_y = Returns 2 x_and_y"
proof -
  have hyps: "consistent x_and_y" "\<not> lock x_and_y"
    by (auto simp: consistent_def x_and_y_def)
  have run: "DeleteExpired quiet 150 1 [''x'', ''y''] x_and_y =
        Returns 2 \<lparr>MaxEntries = 2, dl = Some [''y''],
          cache = Some [''y'' \<mapsto> \<lparr>key = ''y'', val = 2, Expiration = 0, OnEvicted = None\<rparr>],
          lock = False, fired = [(7, ''x'', 1)]\<rparr>"
    by (simp add: DeleteExpired_def Len_def x_and_y_def Lock_defer_Unlock_def lookup_def
        removeElement_def quiet_def list_Remove_def map_delete_def fun_eq_iff)
  have "Len x_and_y = Returns 2 x_and_y" by (simp add: Len_def x_and_y_def)
  with DeleteExpired_bounded [OF hyps, of 150 1 "[''x'', ''y'']"] run show ?thesis by simp
qed

end
